theory Spec2Isabelle
  imports Main "HOL-Library.FSet" "HOL-Library.Product_Lexorder"
begin

section \<open>Data model of minesweeper.py\<close>

text \<open>
  A board cell is the Python tuple \<open>(i, j)\<close> of two unbounded integers. Python sets of
  cells are finite, so they are finite sets here; \<open>len\<close> is \<open>fcard\<close>.
\<close>

type_synonym cell = "int \<times> int"

text \<open>
  The only exception these classes can raise: a read of an attribute that the object
  does not have. The two strings are the class and the attribute.
\<close>

datatype error = AttributeError string string

text \<open>
  class Sentence (lines 87-96). \<open>__init__\<close> assigns exactly two attributes,
  \<open>cells\<close> and \<open>count\<close>; \<open>__eq__\<close> (line 99) compares both, which is equality of
  records.
\<close>

record sentence =
  cells :: "cell fset"
  count :: int

definition Sentence :: "cell fset \<Rightarrow> int \<Rightarrow> sentence" where
  "Sentence cs n = \<lparr>cells = cs, count = n\<rparr>"

text \<open>class MinesweeperAI, the attributes assigned by \<open>__init__\<close> (lines 154-168).\<close>

record ai =
  height :: int
  width :: int
  moves_made :: "cell fset"
  mines :: "cell fset"
  safes :: "cell fset"
  knowledge :: "sentence list"

definition MinesweeperAI :: "int \<Rightarrow> int \<Rightarrow> ai" where
  "MinesweeperAI h w =
     \<lparr>height = h, width = w, moves_made = {||}, mines = {||}, safes = {||}, knowledge = []\<rparr>"

section \<open>Sentence\<close>

text \<open>Sentence.known_mines (lines 104-111).\<close>

definition known_mines :: "sentence \<Rightarrow> cell fset" where
  "known_mines self = (if int (fcard (cells self)) = count self then cells self else {||})"

text \<open>Sentence.known_safes (lines 113-122), with its three branches in source order.\<close>

definition known_safes :: "sentence \<Rightarrow> cell fset" where
  "known_safes self =
     (if int (fcard (cells self)) = count self then {||}
      else if count self = 0 then cells self
      else {||})"

text \<open>
  Sentence.mark_mine (lines 125-136). Its first statement, line 130, is
  \<open>self.mines.add(cell)\<close>, where \<open>self\<close> is a Sentence: the attribute \<open>mines\<close> is
  read before anything is changed, a Sentence has no such attribute (neither
  \<open>__init__\<close> nor the class assigns one), and Python raises AttributeError. The loop
  of lines 133-136 is never reached. A call returns its outcome (the exception, or
  None as \<open>()\<close>) together with the object as the call leaves it.
\<close>

definition Sentence_mark_mine :: "cell \<Rightarrow> sentence \<Rightarrow> (error + unit) \<times> sentence" where
  "Sentence_mark_mine cell self = (Inl (AttributeError ''Sentence'' ''mines''), self)"

text \<open>
  Sentence.mark_safe (lines 138-146): line 143 reads \<open>self.safe\<close>, which a Sentence
  does not have either.
\<close>

definition Sentence_mark_safe :: "cell \<Rightarrow> sentence \<Rightarrow> (error + unit) \<times> sentence" where
  "Sentence_mark_safe cell self = (Inl (AttributeError ''Sentence'' ''safe''), self)"

section \<open>MinesweeperAI: mark_mine and mark_safe\<close>

text \<open>
  The loop \<open>for sentence in self.knowledge: sentence.mark_mine(cell)\<close> (lines 176-177).
  An exception raised by one call leaves the loop; the sentences after it are untouched.
\<close>

fun mark_mine_loop :: "cell \<Rightarrow> sentence list \<Rightarrow> (error + unit) \<times> sentence list" where
  "mark_mine_loop cell [] = (Inr (), [])"
| "mark_mine_loop cell (sentence # rest) =
     (case Sentence_mark_mine cell sentence of
        (Inl e, sentence') \<Rightarrow> (Inl e, sentence' # rest)
      | (Inr u, sentence') \<Rightarrow>
          (case mark_mine_loop cell rest of (r, rest') \<Rightarrow> (r, sentence' # rest')))"

fun mark_safe_loop :: "cell \<Rightarrow> sentence list \<Rightarrow> (error + unit) \<times> sentence list" where
  "mark_safe_loop cell [] = (Inr (), [])"
| "mark_safe_loop cell (sentence # rest) =
     (case Sentence_mark_safe cell sentence of
        (Inl e, sentence') \<Rightarrow> (Inl e, sentence' # rest)
      | (Inr u, sentence') \<Rightarrow>
          (case mark_safe_loop cell rest of (r, rest') \<Rightarrow> (r, sentence' # rest')))"

text \<open>
  MinesweeperAI.mark_mine (lines 170-177): the cell is added to \<open>self.mines\<close> first, so
  the addition stays when the loop raises.
\<close>

definition mark_mine :: "cell \<Rightarrow> ai \<Rightarrow> (error + unit) \<times> ai" where
  "mark_mine cell self =
     (let self1 = self\<lparr>mines := finsert cell (mines self)\<rparr>;
          (r, k) = mark_mine_loop cell (knowledge self1)
      in (r, self1\<lparr>knowledge := k\<rparr>))"

text \<open>MinesweeperAI.mark_safe (lines 179-186).\<close>

definition mark_safe :: "cell \<Rightarrow> ai \<Rightarrow> (error + unit) \<times> ai" where
  "mark_safe cell self =
     (let self1 = self\<lparr>safes := finsert cell (safes self)\<rparr>;
          (r, k) = mark_safe_loop cell (knowledge self1)
      in (r, self1\<lparr>knowledge := k\<rparr>))"

section \<open>The function nested in add_knowledge (lines 203-262)\<close>

text \<open>
  Iterating over a Python set visits each element once, in an order the language does
  not fix. The order is a parameter: \<open>iter S\<close> is the list in which the elements of
  the set \<open>S\<close> are visited.
\<close>

type_synonym iteration = "cell fset \<Rightarrow> cell list"

definition enumerates :: "iteration \<Rightarrow> bool" where
  "enumerates iter = (\<forall>S. set (iter S) = fset S \<and> distinct (iter S))"

text \<open>
  Step 3 (lines 211-221): the neighbours of the cell inside the board that are in
  neither \<open>self.safes\<close> nor \<open>self.mines\<close>.
\<close>

definition unknown_neighbors :: "cell \<Rightarrow> ai \<Rightarrow> cell fset" where
  "unknown_neighbors cell self =
     (let i = fst cell; j = snd cell in
      fset_of_list
        [(i + di, j + dj). di \<leftarrow> [-1, 0, 1], dj \<leftarrow> [-1, 0, 1],
           \<not> (di = 0 \<and> dj = 0),
           0 \<le> i + di \<and> i + di < height self \<and> 0 \<le> j + dj \<and> j + dj < width self,
           (i + di, j + dj) |\<notin>| safes self \<and> (i + di, j + dj) |\<notin>| mines self])"

text \<open>Lines 232-236: the unions of known_safes and of known_mines over the knowledge.\<close>

definition collect_safes :: "sentence list \<Rightarrow> cell fset" where
  "collect_safes K = fold (\<lambda>sentence acc. acc |\<union>| known_safes sentence) K {||}"

definition collect_mines :: "sentence list \<Rightarrow> cell fset" where
  "collect_mines K = fold (\<lambda>sentence acc. acc |\<union>| known_mines sentence) K {||}"

text \<open>
  Lines 238-241 and 242-245: the loops that mark the collected cells. The flag
  \<open>changed\<close> is threaded through; an exception raised by a mark leaves the loop.
\<close>

fun mark_new_safes :: "cell list \<Rightarrow> bool \<Rightarrow> ai \<Rightarrow> (error + bool) \<times> ai" where
  "mark_new_safes [] changed self = (Inr changed, self)"
| "mark_new_safes (safe # rest) changed self =
     (if safe |\<notin>| safes self then
        (case mark_safe safe self of
           (Inl e, self') \<Rightarrow> (Inl e, self')
         | (Inr u, self') \<Rightarrow> mark_new_safes rest True self')
      else mark_new_safes rest changed self)"

fun mark_new_mines :: "cell list \<Rightarrow> bool \<Rightarrow> ai \<Rightarrow> (error + bool) \<times> ai" where
  "mark_new_mines [] changed self = (Inr changed, self)"
| "mark_new_mines (mine # rest) changed self =
     (if mine |\<notin>| mines self then
        (case mark_mine mine self of
           (Inl e, self') \<Rightarrow> (Inl e, self')
         | (Inr u, self') \<Rightarrow> mark_new_mines rest True self')
      else mark_new_mines rest changed self)"

text \<open>
  Step 6 (lines 248-259). \<open>inferred\<close> is the sentence built on lines 254-257 from a
  pair with \<open>s1.cells\<close> a subset of \<open>s2.cells\<close>.
\<close>

definition inferred :: "sentence \<Rightarrow> sentence \<Rightarrow> sentence" where
  "inferred s1 s2 = Sentence (cells s2 |-| cells s1) (count s2 - count s1)"

fun infer_inner :: "sentence list \<Rightarrow> sentence \<Rightarrow> sentence list \<Rightarrow> sentence list \<Rightarrow> sentence list" where
  "infer_inner K s1 [] new_inferences = new_inferences"
| "infer_inner K s1 (s2 # rest) new_inferences =
     (if s1 = s2 then infer_inner K s1 rest new_inferences
      else if cells s1 |\<subseteq>| cells s2 then
        (if cells s2 |-| cells s1 \<noteq> {||} then
           (if inferred s1 s2 \<notin> set K \<and> inferred s1 s2 \<notin> set new_inferences
            then infer_inner K s1 rest (new_inferences @ [inferred s1 s2])
            else infer_inner K s1 rest new_inferences)
         else infer_inner K s1 rest new_inferences)
      else infer_inner K s1 rest new_inferences)"

fun infer_outer :: "sentence list \<Rightarrow> sentence list \<Rightarrow> sentence list \<Rightarrow> sentence list" where
  "infer_outer K [] new_inferences = new_inferences"
| "infer_outer K (s1 # rest) new_inferences =
     infer_outer K rest (infer_inner K s1 K new_inferences)"

definition infer_new :: "sentence list \<Rightarrow> sentence list" where
  "infer_new K = infer_outer K K []"

text \<open>
  One run of the body of \<open>while changed\<close> (lines 231-262); the result is the value
  of \<open>changed\<close> at the end of the body, or the exception that left it.
\<close>

definition propagation_pass :: "iteration \<Rightarrow> ai \<Rightarrow> (error + bool) \<times> ai" where
  "propagation_pass iter self =
     (let safes' = collect_safes (knowledge self);
          mines' = collect_mines (knowledge self) in
      case mark_new_safes (iter safes') False self of
        (Inl e, self1) \<Rightarrow> (Inl e, self1)
      | (Inr changed1, self1) \<Rightarrow>
          (case mark_new_mines (iter mines') changed1 self1 of
             (Inl e, self2) \<Rightarrow> (Inl e, self2)
           | (Inr changed2, self2) \<Rightarrow>
               (let new_inferences = infer_new (knowledge self2) in
                if new_inferences \<noteq> []
                then (Inr True, self2\<lparr>knowledge := knowledge self2 @ new_inferences\<rparr>)
                else (Inr changed2, self2))))"

text \<open>
  The loop \<open>while changed\<close> (lines 229-262). Nothing bounds the number of passes, so
  the loop is a partial function: \<open>None\<close> is a run that never ends, \<open>Some\<close> carries
  the outcome (None as \<open>()\<close>, or the exception) and the engine state.
\<close>

partial_function (option) propagation :: "iteration \<Rightarrow> ai \<Rightarrow> ((error + unit) \<times> ai) option" where
  "propagation iter self =
     (case propagation_pass iter self of
        (Inl e, self') \<Rightarrow> Some (Inl e, self')
      | (Inr changed, self') \<Rightarrow>
          if changed then propagation iter self' else Some (Inr (), self'))"

declare propagation.simps [code]

text \<open>The whole nested function: steps 1 to 4, then the loop.\<close>

definition add_knowledge_nested :: "iteration \<Rightarrow> cell \<Rightarrow> int \<Rightarrow> ai \<Rightarrow> ((error + unit) \<times> ai) option" where
  "add_knowledge_nested iter cell count' self =
     (let self1 = self\<lparr>moves_made := finsert cell (moves_made self)\<rparr> in
      case mark_safe cell self1 of
        (Inl e, self2) \<Rightarrow> Some (Inl e, self2)
      | (Inr u, self2) \<Rightarrow>
          (let neighbors = unknown_neighbors cell self2;
               self3 = (if neighbors \<noteq> {||}
                        then self2\<lparr>knowledge := knowledge self2 @ [Sentence neighbors count']\<rparr>
                        else self2)
           in propagation iter self3))"

section \<open>MinesweeperAI.add_knowledge (lines 188-262)\<close>

text \<open>
  After its docstring, the body of the method is one statement: the \<open>def\<close> of line
  203, which binds the local name \<open>add_knowledge\<close> to the nested function. Nothing
  calls it, and the method falls off its end, returning None.
\<close>

definition add_knowledge :: "cell \<Rightarrow> int \<Rightarrow> ai \<Rightarrow> (error + unit) \<times> ai" where
  "add_knowledge cell count' self =
     (let add_knowledge' = add_knowledge_nested in (Inr (), self))"

section \<open>Move selection\<close>

text \<open>
  MinesweeperAI.make_safe_move (lines 264-268): the first cell of \<open>self.safes\<close>, in
  the order of iteration, that is not in \<open>self.moves_made\<close>; None when the loop ends.
\<close>

definition make_safe_move :: "iteration \<Rightarrow> ai \<Rightarrow> cell option" where
  "make_safe_move iter self = find (\<lambda>safe. safe |\<notin>| moves_made self) (iter (safes self))"

text \<open>Python's \<open>range(n)\<close>: the integers from 0 up to \<open>n - 1\<close>, none when \<open>n \<le> 0\<close>.\<close>

definition range_int :: "int \<Rightarrow> int list" where
  "range_int n = [0..n - 1]"

text \<open>Lines 272-273 of make_random_move.\<close>

definition all_moves :: "ai \<Rightarrow> cell fset" where
  "all_moves self = fset_of_list [(i, j). i \<leftarrow> range_int (height self), j \<leftarrow> range_int (width self)]"

definition possible_moves :: "ai \<Rightarrow> cell fset" where
  "possible_moves self = all_moves self |-| moves_made self |-| mines self"

text \<open>
  MinesweeperAI.make_random_move (lines 271-276). \<open>list(possible_moves)\<close> is the set in
  its order of iteration. \<open>random.choice(seq)\<close> returns \<open>seq[k]\<close> for an index \<open>k\<close>
  that the generator draws below \<open>len(seq)\<close>; the generator is the parameter
  \<open>randbelow\<close>, from the length to the index drawn.
\<close>

definition make_random_move :: "iteration \<Rightarrow> (nat \<Rightarrow> nat) \<Rightarrow> ai \<Rightarrow> cell option" where
  "make_random_move iter randbelow self =
     (if possible_moves self \<noteq> {||}
      then (let seq = iter (possible_moves self) in Some (seq ! randbelow (length seq)))
      else None)"

section \<open>Sequences of calls\<close>

text \<open>
  A caller that calls the three methods one after another; an exception that a call
  raises is not caught, so it ends the sequence.
\<close>

datatype call = Mark_safe cell | Mark_mine cell | Add_knowledge cell int

fun run_call :: "call \<Rightarrow> ai \<Rightarrow> (error + unit) \<times> ai" where
  "run_call (Mark_safe cell) self = mark_safe cell self"
| "run_call (Mark_mine cell) self = mark_mine cell self"
| "run_call (Add_knowledge cell count') self = add_knowledge cell count' self"

fun run :: "call list \<Rightarrow> ai \<Rightarrow> (error + unit) \<times> ai" where
  "run [] self = (Inr (), self)"
| "run (c # cs) self =
     (case run_call c self of
        (Inl e, self') \<Rightarrow> (Inl e, self')
      | (Inr u, self') \<Rightarrow> run cs self')"

section \<open>What a sentence says\<close>

text \<open>
  The docstring of Sentence (lines 88-92): a sentence is a set of cells and the number
  of those cells which are mines. \<open>holds M s\<close>: the sentence \<open>s\<close> is true of the
  board whose mines are the cells of \<open>M\<close>. \<open>count_in_range\<close> is the invariant the
  specification gives for one sentence.
\<close>

definition holds :: "cell set \<Rightarrow> sentence \<Rightarrow> bool" where
  "holds M s = (count s = int (card (fset (cells s) \<inter> M)))"

definition count_in_range :: "sentence \<Rightarrow> bool" where
  "count_in_range s = (0 \<le> count s \<and> count s \<le> int (fcard (cells s)))"

section \<open>Auxiliary notions for the proofs about the loop\<close>

text \<open>
  The three tests of lines 251-256 under which the inner loop builds a sentence from
  the pair: the two sentences differ, the cells of the first are among the cells of the
  second, and the difference is not empty.
\<close>

definition infers :: "sentence \<Rightarrow> sentence \<Rightarrow> bool" where
  "infers s1 s2 = (s1 \<noteq> s2 \<and> cells s1 |\<subseteq>| cells s2 \<and> cells s2 |-| cells s1 \<noteq> {||})"

text \<open>
  A state of the engine on which the loop is run below: six cells of the two upper
  rows of the board, the first two of them, and the other four.
\<close>

definition six_cells :: "cell fset" where
  "six_cells = {|(0, 0), (0, 1), (0, 2), (1, 0), (1, 1), (1, 2)|}"

definition two_cells :: "cell fset" where
  "two_cells = {|(0, 0), (0, 1)|}"

definition four_cells :: "cell fset" where
  "four_cells = {|(0, 2), (1, 0), (1, 1), (1, 2)|}"

text \<open>
  Knowledge that contains the three sentences \<open>six_cells = 2\<close>, \<open>six_cells = 4\<close> and
  \<open>two_cells = 1\<close>, and otherwise only sentences over the two cells or the four
  cells with an odd count.
\<close>

definition unsettled :: "sentence list \<Rightarrow> bool" where
  "unsettled K =
     (Sentence six_cells 2 \<in> set K \<and> Sentence six_cells 4 \<in> set K \<and>
      Sentence two_cells 1 \<in> set K \<and>
      (\<forall>s \<in> set K. (cells s = six_cells \<and> (count s = 2 \<or> count s = 4)) \<or>
                     (cells s = two_cells \<and> odd (count s)) \<or>
                     (cells s = four_cells \<and> odd (count s))))"

section \<open>Facts about marking\<close>

lemma mark_mine_loop_eq:
  "mark_mine_loop cell K =
     (if K = [] then Inr () else Inl (AttributeError ''Sentence'' ''mines''), K)"
  by (cases K) (simp_all add: Sentence_mark_mine_def)

lemma mark_safe_loop_eq:
  "mark_safe_loop cell K =
     (if K = [] then Inr () else Inl (AttributeError ''Sentence'' ''safe''), K)"
  by (cases K) (simp_all add: Sentence_mark_safe_def)

lemma mark_mine_eq:
  "mark_mine cell self =
     (if knowledge self = [] then Inr () else Inl (AttributeError ''Sentence'' ''mines''),
      self\<lparr>mines := finsert cell (mines self)\<rparr>)"
  by (simp add: mark_mine_def mark_mine_loop_eq)

lemma mark_safe_eq:
  "mark_safe cell self =
     (if knowledge self = [] then Inr () else Inl (AttributeError ''Sentence'' ''safe''),
      self\<lparr>safes := finsert cell (safes self)\<rparr>)"
  by (simp add: mark_safe_def mark_safe_loop_eq)

text \<open>
  From a state with no sentences every call returns, the knowledge stays empty, and
  the two sets collect the cells the calls were given.
\<close>

lemma run_empty_knowledge:
  "knowledge self = [] \<Longrightarrow>
     fst (run cs self) = Inr () \<and>
     knowledge (snd (run cs self)) = [] \<and>
     moves_made (snd (run cs self)) = moves_made self \<and>
     fset (safes (snd (run cs self))) = fset (safes self) \<union> {c. Mark_safe c \<in> set cs} \<and>
     fset (mines (snd (run cs self))) = fset (mines self) \<union> {c. Mark_mine c \<in> set cs}"
proof (induction cs arbitrary: self)
  case Nil
  then show ?case by simp
next
  case (Cons c cs)
  show ?case
  proof (cases c)
    case (Mark_safe x)
    let ?s = "self\<lparr>safes := finsert x (safes self)\<rparr>"
    have k: "knowledge ?s = []" using Cons.prems by simp
    show ?thesis using Cons.IH[OF k] Cons.prems Mark_safe
      by (auto simp: mark_safe_eq)
  next
    case (Mark_mine x)
    let ?s = "self\<lparr>mines := finsert x (mines self)\<rparr>"
    have k: "knowledge ?s = []" using Cons.prems by simp
    show ?thesis using Cons.IH[OF k] Cons.prems Mark_mine
      by (auto simp: mark_mine_eq)
  next
    case (Add_knowledge x n)
    show ?thesis using Cons.IH[OF Cons.prems] Add_knowledge
      by (auto simp: add_knowledge_def)
  qed
qed

section \<open>Facts about sentences that hold of a board\<close>

lemma inferred_holds:
  assumes A: "holds M A" and B: "holds M B" and sub: "cells A |\<subseteq>| cells B"
  shows "holds M (inferred A B)"
proof -
  have fin: "finite (fset (cells B) \<inter> M)" by simp
  have ss: "fset (cells A) \<inter> M \<subseteq> fset (cells B) \<inter> M"
    using sub by (auto simp: less_eq_fset.rep_eq)
  have eq: "fset (cells B |-| cells A) \<inter> M = (fset (cells B) \<inter> M) - (fset (cells A) \<inter> M)"
    by auto
  have "card (fset (cells B |-| cells A) \<inter> M)
          = card (fset (cells B) \<inter> M) - card (fset (cells A) \<inter> M)"
    unfolding eq by (rule card_Diff_subset) (use ss fin in \<open>auto intro: finite_subset\<close>)
  moreover have "card (fset (cells A) \<inter> M) \<le> card (fset (cells B) \<inter> M)"
    by (rule card_mono[OF fin ss])
  ultimately show ?thesis
    using A B by (simp add: holds_def inferred_def Sentence_def)
qed

lemma holds_count_in_range: "holds M s \<Longrightarrow> count_in_range s"
  by (simp add: holds_def count_in_range_def fcard.rep_eq card_mono)

section \<open>Facts about move selection\<close>

lemma all_moves_iff:
  "(i, j) |\<in>| all_moves self \<longleftrightarrow> 0 \<le> i \<and> i < height self \<and> 0 \<le> j \<and> j < width self"
  by (force simp: all_moves_def range_int_def fset_of_list.rep_eq)

lemma possible_moves_fset:
  "fset (possible_moves self) =
     {(i, j). 0 \<le> i \<and> i < height self \<and> 0 \<le> j \<and> j < width self}
       - fset (moves_made self) - fset (mines self)"
  using all_moves_iff[of _ _ self] by (auto simp: possible_moves_def)

lemma enumerates_length: "enumerates iter \<Longrightarrow> length (iter S) = fcard S"
  by (metis enumerates_def distinct_card fcard.rep_eq)

lemma enumerates_sorted_list: "enumerates sorted_list_of_fset"
  unfolding enumerates_def
  by (metis sorted_list_of_fset_simps(1) sorted_list_of_fset.rep_eq distinct_sorted_list_of_set)

lemma make_safe_move_spec:
  assumes "enumerates iter"
  shows "case make_safe_move iter self of
           None \<Rightarrow> safes self |-| moves_made self = {||}
         | Some c \<Rightarrow> c |\<in>| safes self |-| moves_made self"
proof (cases "make_safe_move iter self")
  case None
  then have "\<forall>x \<in> set (iter (safes self)). x |\<in>| moves_made self"
    by (auto simp: make_safe_move_def find_None_iff)
  then have "\<forall>x. x |\<in>| safes self \<longrightarrow> x |\<in>| moves_made self"
    using assms by (simp add: enumerates_def)
  then have "safes self |-| moves_made self = {||}" by auto
  with None show ?thesis by simp
next
  case (Some c)
  then have "c \<in> set (iter (safes self)) \<and> c |\<notin>| moves_made self"
    by (auto simp: make_safe_move_def find_Some_iff)
  then have "c |\<in>| safes self |-| moves_made self"
    using assms by (simp add: enumerates_def)
  with Some show ?thesis by simp
qed

lemma make_random_move_spec:
  assumes e: "enumerates iter" and r: "\<forall>n. 0 < n \<longrightarrow> randbelow n < n"
  shows "case make_random_move iter randbelow self of
           None \<Rightarrow> possible_moves self = {||}
         | Some c \<Rightarrow> c |\<in>| possible_moves self"
proof (cases "possible_moves self = {||}")
  case True
  then show ?thesis by (simp add: make_random_move_def)
next
  case False
  let ?seq = "iter (possible_moves self)"
  have len: "length ?seq = fcard (possible_moves self)" by (rule enumerates_length[OF e])
  have "0 < length ?seq" using False len by (simp add: fcard_0_eq[symmetric] del: fcard_0_eq)
  then have "randbelow (length ?seq) < length ?seq" using r by simp
  then have "?seq ! randbelow (length ?seq) \<in> set ?seq" by (rule nth_mem)
  then have "?seq ! randbelow (length ?seq) |\<in>| possible_moves self"
    using e by (simp add: enumerates_def)
  with False show ?thesis by (simp add: make_random_move_def Let_def)
qed

text \<open>
  Each candidate is the result for exactly one value of the index drawn, so an index
  drawn uniformly gives a cell drawn uniformly.
\<close>

lemma make_random_move_uniform:
  assumes e: "enumerates iter"
  shows "bij_betw (\<lambda>k. the (make_random_move iter (\<lambda>n. k) self))
           {..<fcard (possible_moves self)} (fset (possible_moves self))"
proof (cases "possible_moves self = {||}")
  case True
  then show ?thesis by (simp add: bij_betw_def fcard_fempty)
next
  case False
  let ?seq = "iter (possible_moves self)"
  have len: "length ?seq = fcard (possible_moves self)" by (rule enumerates_length[OF e])
  have d: "distinct ?seq" and s: "set ?seq = fset (possible_moves self)"
    using e by (simp_all add: enumerates_def)
  have "bij_betw (\<lambda>k. ?seq ! k) {..<length ?seq} (set ?seq)"
    by (rule bij_betw_nth[OF d]) simp_all
  then show ?thesis using False by (simp add: make_random_move_def Let_def len s)
qed

section \<open>Facts about the inference step\<close>

lemma infer_inner_step:
  "infer_inner K s1 (s2 # rest) acc =
     infer_inner K s1 rest
       (if infers s1 s2 \<and> inferred s1 s2 \<notin> set K \<and> inferred s1 s2 \<notin> set acc
        then acc @ [inferred s1 s2] else acc)"
  by (simp add: infers_def)

lemma in_infer_inner:
  "d \<in> set (infer_inner K s1 ys acc) \<longleftrightarrow>
     d \<in> set acc \<or> (d \<notin> set K \<and> (\<exists>s2 \<in> set ys. infers s1 s2 \<and> d = inferred s1 s2))"
proof (induction ys arbitrary: acc)
  case Nil
  then show ?case by simp
next
  case (Cons s2 ys)
  show ?case unfolding infer_inner_step Cons.IH by auto
qed

lemma in_infer_outer:
  "d \<in> set (infer_outer K xs acc) \<longleftrightarrow>
     d \<in> set acc \<or>
     (d \<notin> set K \<and> (\<exists>s1 \<in> set xs. \<exists>s2 \<in> set K. infers s1 s2 \<and> d = inferred s1 s2))"
proof (induction xs arbitrary: acc)
  case Nil
  then show ?case by simp
next
  case (Cons s1 xs)
  show ?case unfolding infer_outer.simps Cons.IH in_infer_inner by auto
qed

lemma in_infer_new:
  "d \<in> set (infer_new K) \<longleftrightarrow>
     d \<notin> set K \<and> (\<exists>s1 \<in> set K. \<exists>s2 \<in> set K. infers s1 s2 \<and> d = inferred s1 s2)"
  by (simp add: infer_new_def in_infer_outer)

section \<open>Facts about one pass of the loop\<close>

lemma mark_new_safes_raises:
  "knowledge self \<noteq> [] \<Longrightarrow>
     (\<exists>e s'. mark_new_safes xs changed self = (Inl e, s')) \<or>
     mark_new_safes xs changed self = (Inr changed, self)"
  by (induction xs) (auto simp: mark_safe_eq)

lemma mark_new_mines_raises:
  "knowledge self \<noteq> [] \<Longrightarrow>
     (\<exists>e s'. mark_new_mines xs changed self = (Inl e, s')) \<or>
     mark_new_mines xs changed self = (Inr changed, self)"
  by (induction xs) (auto simp: mark_mine_eq)

lemma propagation_pass_cases:
  assumes "enumerates iter"
  shows "(\<exists>e s'. propagation_pass iter self = (Inl e, s')) \<or>
         propagation_pass iter self =
           (Inr (infer_new (knowledge self) \<noteq> []),
            self\<lparr>knowledge := knowledge self @ infer_new (knowledge self)\<rparr>)"
proof (cases "knowledge self = []")
  case True
  have "set (iter {||}) = {}" using assms by (simp add: enumerates_def)
  then have "iter {||} = []" by simp
  then show ?thesis using True
    by (simp add: propagation_pass_def collect_safes_def collect_mines_def infer_new_def)
next
  case False
  let ?xs = "iter (collect_safes (knowledge self))"
  let ?ys = "iter (collect_mines (knowledge self))"
  from mark_new_safes_raises[OF False, of ?xs False]
  show ?thesis
  proof
    assume "\<exists>e s'. mark_new_safes ?xs False self = (Inl e, s')"
    then show ?thesis by (auto simp: propagation_pass_def)
  next
    assume a: "mark_new_safes ?xs False self = (Inr False, self)"
    from mark_new_mines_raises[OF False, of ?ys False]
    show ?thesis
    proof
      assume "\<exists>e s'. mark_new_mines ?ys False self = (Inl e, s')"
      then show ?thesis using a by (auto simp: propagation_pass_def)
    next
      assume b: "mark_new_mines ?ys False self = (Inr False, self)"
      show ?thesis using a b by (simp add: propagation_pass_def Let_def)
    qed
  qed
qed

section \<open>The loop ends when the sentences stay in a finite set\<close>

lemma loop_ends_within:
  assumes e: "enumerates iter" and fin: "finite F"
    and closed: "\<And>K. set K \<subseteq> F \<Longrightarrow> set (infer_new K) \<subseteq> F"
  shows "set (knowledge self) \<subseteq> F \<Longrightarrow> \<exists>r. propagation iter self = Some r"
proof (induction "card (F - set (knowledge self))" arbitrary: self rule: less_induct)
  case less
  let ?K = "knowledge self"
  let ?new = "infer_new ?K"
  from propagation_pass_cases[OF e, of self]
  show ?case
  proof
    assume "\<exists>e s'. propagation_pass iter self = (Inl e, s')"
    then show ?thesis by (subst propagation.simps) auto
  next
    assume p: "propagation_pass iter self = (Inr (?new \<noteq> []), self\<lparr>knowledge := ?K @ ?new\<rparr>)"
    show ?thesis
    proof (cases "?new = []")
      case True
      then show ?thesis using p by (subst propagation.simps) simp
    next
      case False
      let ?s = "self\<lparr>knowledge := ?K @ ?new\<rparr>"
      have sub: "set ?new \<subseteq> F" by (rule closed[OF less.prems])
      have disj: "set ?new \<inter> set ?K = {}" by (auto simp: in_infer_new)
      obtain x where x: "x \<in> set ?new" using False by (cases ?new) auto
      have "F - set (knowledge ?s) \<subset> F - set ?K"
        using x sub disj by auto
      then have "card (F - set (knowledge ?s)) < card (F - set ?K)"
        using fin by (intro psubset_card_mono) auto
      moreover have "set (knowledge ?s) \<subseteq> F" using sub less.prems by simp
      ultimately obtain r where "propagation iter ?s = Some r"
        using less.hyps by blast
      then show ?thesis using p False by (subst propagation.simps) simp
    qed
  qed
qed

lemma finite_holding:
  assumes "finite U"
  shows "finite {s. fset (cells s) \<subseteq> U \<and> holds M s}"
proof -
  have "{s. fset (cells s) \<subseteq> U \<and> holds M s}
          \<subseteq> (\<lambda>c. Sentence (Abs_fset c) (int (card (c \<inter> M)))) ` Pow U"
  proof
    fix s assume "s \<in> {s. fset (cells s) \<subseteq> U \<and> holds M s}"
    then have u: "fset (cells s) \<in> Pow U" and h: "holds M s" by auto
    have "s = Sentence (Abs_fset (fset (cells s))) (int (card (fset (cells s) \<inter> M)))"
      using h by (simp add: holds_def Sentence_def fset_inverse)
    with u show "s \<in> (\<lambda>c. Sentence (Abs_fset c) (int (card (c \<inter> M)))) ` Pow U"
      by (rule_tac image_eqI)
  qed
  moreover have "finite (Pow U)" using assms by simp
  ultimately show ?thesis by (meson finite_imageI finite_subset)
qed

lemma infer_new_holding:
  assumes "set K \<subseteq> {s. fset (cells s) \<subseteq> U \<and> holds M s}"
  shows "set (infer_new K) \<subseteq> {s. fset (cells s) \<subseteq> U \<and> holds M s}"
proof
  fix d assume "d \<in> set (infer_new K)"
  then obtain s1 s2 where d: "d = inferred s1 s2" and s1: "s1 \<in> set K" and s2: "s2 \<in> set K"
    and sub: "cells s1 |\<subseteq>| cells s2"
    by (auto simp: in_infer_new infers_def)
  have "holds M d" unfolding d using assms s1 s2 sub by (intro inferred_holds) auto
  moreover have "fset (cells d) \<subseteq> U" using assms s2 by (auto simp: d inferred_def Sentence_def)
  ultimately show "d \<in> {s. fset (cells s) \<subseteq> U \<and> holds M s}" by simp
qed

section \<open>A state from which the loop never ends\<close>

lemma cells_card:
  "fcard six_cells = 6" "fcard two_cells = 2" "fcard four_cells = 4"
  by (auto simp: six_cells_def two_cells_def four_cells_def fcard_finsert_if)

lemma cells_rel:
  "six_cells |-| two_cells = four_cells" "six_cells |-| four_cells = two_cells"
  "two_cells |\<subseteq>| six_cells" "four_cells |\<subseteq>| six_cells"
  "\<not> six_cells |\<subseteq>| two_cells" "\<not> six_cells |\<subseteq>| four_cells"
  "\<not> two_cells |\<subseteq>| four_cells" "\<not> four_cells |\<subseteq>| two_cells"
  "two_cells \<noteq> {||}" "four_cells \<noteq> {||}"
  by (auto simp: six_cells_def two_cells_def four_cells_def)

lemma cells_neq:
  "two_cells \<noteq> six_cells" "four_cells \<noteq> six_cells" "two_cells \<noteq> four_cells"
  "six_cells \<noteq> two_cells" "six_cells \<noteq> four_cells" "four_cells \<noteq> two_cells"
  using cells_card by auto

lemma unsettled_no_known:
  assumes "unsettled K" and "s \<in> set K"
  shows "known_safes s = {||} \<and> known_mines s = {||}"
  using assms by (auto simp: unsettled_def known_safes_def known_mines_def cells_card)

lemma collect_safes_none: "\<forall>s \<in> set K. known_safes s = {||} \<Longrightarrow> collect_safes K = {||}"
proof -
  have "\<forall>s \<in> set K. known_safes s = {||} \<Longrightarrow>
        fold (\<lambda>sentence acc. acc |\<union>| known_safes sentence) K acc = acc" for acc
    by (induction K arbitrary: acc) simp_all
  then show "\<forall>s \<in> set K. known_safes s = {||} \<Longrightarrow> collect_safes K = {||}"
    by (simp add: collect_safes_def)
qed

lemma collect_mines_none: "\<forall>s \<in> set K. known_mines s = {||} \<Longrightarrow> collect_mines K = {||}"
proof -
  have "\<forall>s \<in> set K. known_mines s = {||} \<Longrightarrow>
        fold (\<lambda>sentence acc. acc |\<union>| known_mines sentence) K acc = acc" for acc
    by (induction K arbitrary: acc) simp_all
  then show "\<forall>s \<in> set K. known_mines s = {||} \<Longrightarrow> collect_mines K = {||}"
    by (simp add: collect_mines_def)
qed

lemma unsettled_infers_more:
  assumes u: "unsettled K"
  shows "infer_new K \<noteq> []"
proof
  assume e: "infer_new K = []"
  have closed: "inferred s1 s2 \<in> set K"
    if "s1 \<in> set K" "s2 \<in> set K" "infers s1 s2" for s1 s2
  proof (rule ccontr)
    assume "inferred s1 s2 \<notin> set K"
    then have "inferred s1 s2 \<in> set (infer_new K)" using that by (auto simp: in_infer_new)
    then show False using e by simp
  qed
  define C where "C = count ` {s \<in> set K. cells s = two_cells}"
  have fin: "finite C" by (simp add: C_def)
  have "Sentence two_cells 1 \<in> set K" using u by (simp add: unsettled_def)
  then have "count (Sentence two_cells 1) \<in> C"
    unfolding C_def by (intro imageI) (simp add: Sentence_def)
  then have ne: "C \<noteq> {}" by auto
  have "Min C \<in> C" by (rule Min_in[OF fin ne])
  then obtain sX where sX: "sX \<in> set K" "cells sX = two_cells" "count sX = Min C"
    by (auto simp: C_def)
  have six4: "Sentence six_cells 4 \<in> set K" and six2: "Sentence six_cells 2 \<in> set K"
    using u by (simp_all add: unsettled_def)
  have "infers sX (Sentence six_cells 4)"
    using sX by (auto simp: infers_def Sentence_def cells_rel cells_neq)
  then have "inferred sX (Sentence six_cells 4) \<in> set K" by (rule closed[OF sX(1) six4])
  moreover have "inferred sX (Sentence six_cells 4) = Sentence four_cells (4 - Min C)"
    using sX by (simp add: inferred_def Sentence_def cells_rel)
  ultimately have four: "Sentence four_cells (4 - Min C) \<in> set K" by simp
  have "infers (Sentence four_cells (4 - Min C)) (Sentence six_cells 2)"
    by (auto simp: infers_def Sentence_def cells_rel cells_neq)
  then have "inferred (Sentence four_cells (4 - Min C)) (Sentence six_cells 2) \<in> set K"
    by (rule closed[OF four six2])
  moreover have "inferred (Sentence four_cells (4 - Min C)) (Sentence six_cells 2)
                   = Sentence two_cells (Min C - 2)"
    by (simp add: inferred_def Sentence_def cells_rel)
  ultimately have "Sentence two_cells (Min C - 2) \<in> set K" by simp
  then have "count (Sentence two_cells (Min C - 2)) \<in> C"
    unfolding C_def by (intro imageI) (simp add: Sentence_def)
  then have "Min C - 2 \<in> C" by (simp add: Sentence_def)
  then have "Min C \<le> Min C - 2" by (rule Min_le[OF fin])
  then show False by simp
qed

lemma unsettled_infers_shape:
  assumes u: "unsettled K" and s: "s1 \<in> set K" "s2 \<in> set K" and i: "infers s1 s2"
  shows "(cells s1 = two_cells \<or> cells s1 = four_cells) \<and> odd (count s1) \<and>
         cells s2 = six_cells \<and> even (count s2)"
proof -
  have f1: "(cells s1 = six_cells \<and> (count s1 = 2 \<or> count s1 = 4)) \<or>
            (cells s1 = two_cells \<and> odd (count s1)) \<or>
            (cells s1 = four_cells \<and> odd (count s1))"
    using u s(1) by (simp add: unsettled_def)
  have f2: "(cells s2 = six_cells \<and> (count s2 = 2 \<or> count s2 = 4)) \<or>
            (cells s2 = two_cells \<and> odd (count s2)) \<or>
            (cells s2 = four_cells \<and> odd (count s2))"
    using u s(2) by (simp add: unsettled_def)
  have sub: "cells s1 |\<subseteq>| cells s2" and ne: "cells s2 |-| cells s1 \<noteq> {||}"
    using i by (simp_all add: infers_def)
  have n1: "cells s1 \<noteq> six_cells"
  proof
    assume a: "cells s1 = six_cells"
    from f2 have "cells s2 = six_cells \<or> cells s2 = two_cells \<or> cells s2 = four_cells"
      by blast
    then show False
    proof (elim disjE)
      assume "cells s2 = six_cells" then show False using a ne by simp
    next
      assume "cells s2 = two_cells" then show False using a sub cells_rel(5) by simp
    next
      assume "cells s2 = four_cells" then show False using a sub cells_rel(6) by simp
    qed
  qed
  have c1: "(cells s1 = two_cells \<or> cells s1 = four_cells) \<and> odd (count s1)"
    using f1 n1 by blast
  have n2: "cells s2 \<noteq> two_cells"
  proof
    assume a: "cells s2 = two_cells"
    from c1 have "cells s1 = two_cells \<or> cells s1 = four_cells" by simp
    then show False
    proof
      assume "cells s1 = two_cells" then show False using a ne by simp
    next
      assume "cells s1 = four_cells" then show False using a sub cells_rel(8) by simp
    qed
  qed
  have n4: "cells s2 \<noteq> four_cells"
  proof
    assume a: "cells s2 = four_cells"
    from c1 have "cells s1 = two_cells \<or> cells s1 = four_cells" by simp
    then show False
    proof
      assume "cells s1 = two_cells" then show False using a sub cells_rel(7) by simp
    next
      assume "cells s1 = four_cells" then show False using a ne by simp
    qed
  qed
  have c2: "cells s2 = six_cells \<and> (count s2 = 2 \<or> count s2 = 4)"
    using f2 n2 n4 by blast
  then have "even (count s2)" by auto
  with c1 c2 show ?thesis by simp
qed

lemma unsettled_grows:
  assumes u: "unsettled K"
  shows "unsettled (K @ infer_new K)"
proof -
  have new: "(cells d = two_cells \<and> odd (count d)) \<or> (cells d = four_cells \<and> odd (count d))"
    if "d \<in> set (infer_new K)" for d
  proof -
    from that obtain s1 s2 where s: "s1 \<in> set K" "s2 \<in> set K" "infers s1 s2"
      and d: "d = inferred s1 s2"
      by (auto simp: in_infer_new)
    note sh = unsettled_infers_shape[OF u s]
    have cnt: "odd (count d)" using sh by (simp add: d inferred_def Sentence_def)
    have "cells d = six_cells |-| cells s1" using sh by (simp add: d inferred_def Sentence_def)
    then have "cells d = four_cells \<or> cells d = two_cells"
      using sh cells_rel(1,2) by auto
    with cnt show ?thesis by blast
  qed
  have old: "\<forall>s \<in> set K. (cells s = six_cells \<and> (count s = 2 \<or> count s = 4)) \<or>
                     (cells s = two_cells \<and> odd (count s)) \<or>
                     (cells s = four_cells \<and> odd (count s))"
    using u by (simp add: unsettled_def)
  have all: "\<forall>s \<in> set (K @ infer_new K).
                     (cells s = six_cells \<and> (count s = 2 \<or> count s = 4)) \<or>
                     (cells s = two_cells \<and> odd (count s)) \<or>
                     (cells s = four_cells \<and> odd (count s))"
  proof
    fix s assume "s \<in> set (K @ infer_new K)"
    then have "s \<in> set K \<or> s \<in> set (infer_new K)" by simp
    then show "(cells s = six_cells \<and> (count s = 2 \<or> count s = 4)) \<or>
                     (cells s = two_cells \<and> odd (count s)) \<or>
                     (cells s = four_cells \<and> odd (count s))"
    proof
      assume "s \<in> set K" with old show ?thesis by blast
    next
      assume "s \<in> set (infer_new K)" from new[OF this] show ?thesis by blast
    qed
  qed
  have base: "Sentence six_cells 2 \<in> set K \<and> Sentence six_cells 4 \<in> set K \<and>
      Sentence two_cells 1 \<in> set K"
    using u by (simp add: unsettled_def)
  show ?thesis unfolding unsettled_def using base all by simp
qed

lemma unsettled_pass:
  assumes i: "iter {||} = []" and u: "unsettled (knowledge self)"
  shows "propagation_pass iter self =
           (Inr True, self\<lparr>knowledge := knowledge self @ infer_new (knowledge self)\<rparr>)"
proof -
  have "collect_safes (knowledge self) = {||}"
    using unsettled_no_known[OF u] by (intro collect_safes_none) simp
  moreover have "collect_mines (knowledge self) = {||}"
    using unsettled_no_known[OF u] by (intro collect_mines_none) simp
  ultimately show ?thesis
    using i unsettled_infers_more[OF u] by (simp add: propagation_pass_def)
qed

lemma propagation_never_ends:
  assumes i: "iter {||} = []" and u: "unsettled (knowledge self)"
  shows "propagation iter self = None"
proof -
  have "\<not> (iter {||} = [] \<and> unsettled (knowledge self))"
    if h: "propagation iter self = Some y" for y
  proof (rule propagation.raw_induct
      [where P = "\<lambda>it s r. \<not> (it {||} = [] \<and> unsettled (knowledge s))", OF _ h])
    fix loop :: "iteration \<Rightarrow> ai \<Rightarrow> ((error + unit) \<times> ai) option"
    fix it :: iteration and s :: ai and r :: "(error + unit) \<times> ai"
    assume IH: "\<And>it' s' r'. loop it' s' = Some r' \<Longrightarrow>
                  \<not> (it' {||} = [] \<and> unsettled (knowledge s'))"
    assume step: "(case propagation_pass it s of
                     (Inl e, self') \<Rightarrow> Some (Inl e, self')
                   | (Inr changed, self') \<Rightarrow>
                       if changed then loop it self' else Some (Inr (), self')) = Some r"
    show "\<not> (it {||} = [] \<and> unsettled (knowledge s))"
    proof
      assume a: "it {||} = [] \<and> unsettled (knowledge s)"
      let ?s = "s\<lparr>knowledge := knowledge s @ infer_new (knowledge s)\<rparr>"
      have p: "propagation_pass it s = (Inr True, ?s)"
        using a by (intro unsettled_pass) simp_all
      have "loop it ?s = Some r" using step p by simp
      then have "\<not> (it {||} = [] \<and> unsettled (knowledge ?s))" by (rule IH)
      moreover have "unsettled (knowledge ?s)" using a unsettled_grows by simp
      ultimately show False using a by simp
    qed
  qed
  then show ?thesis using assms by (cases "propagation iter self") auto
qed

section \<open>Claims\<close>

text \<open>
  C1. The claim: add_knowledge adds the cell to moves_made, marks it safe, adds a
  sentence over its unknown neighbours and propagates. The method does none of it: on a
  new 8 by 8 engine, \<open>add_knowledge((0, 0), 1)\<close> returns with moves_made, safes and
  knowledge still empty.
\<close>

theorem add_knowledge_new_engine:
  "add_knowledge (0, 0) 1 (MinesweeperAI 8 8) = (Inr (), MinesweeperAI 8 8) \<and>
   (0, 0) |\<notin>| moves_made (snd (add_knowledge (0, 0) 1 (MinesweeperAI 8 8))) \<and>
   (0, 0) |\<notin>| safes (snd (add_knowledge (0, 0) 1 (MinesweeperAI 8 8))) \<and>
   knowledge (snd (add_knowledge (0, 0) 1 (MinesweeperAI 8 8))) = []"
  by (simp add: add_knowledge_def MinesweeperAI_def)

text \<open>
  C2. For every cell, count and engine state, add_knowledge returns None and leaves
  the state (moves_made, safes, mines, knowledge, and the board size) as it was.
\<close>

theorem add_knowledge_changes_nothing:
  "add_knowledge cell count' self = (Inr (), self)"
  by (simp add: add_knowledge_def)

text \<open>
  C3. The claim: mark_mine and mark_safe never raise, also with a non-empty knowledge
  list. On an engine whose knowledge holds one sentence, both raise AttributeError.
\<close>

theorem mark_raises_with_a_sentence:
  "fst (mark_mine (0, 1)
         (MinesweeperAI 8 8\<lparr>knowledge := [Sentence {|(0, 1), (1, 0), (1, 1)|} 1]\<rparr>))
     = Inl (AttributeError ''Sentence'' ''mines'') \<and>
   fst (mark_safe (0, 1)
         (MinesweeperAI 8 8\<lparr>knowledge := [Sentence {|(0, 1), (1, 0), (1, 1)|} 1]\<rparr>))
     = Inl (AttributeError ''Sentence'' ''safe'')"
  by (simp add: mark_mine_def mark_safe_def Sentence_mark_mine_def Sentence_mark_safe_def)

text \<open>
  C4. The claim: mark_mine removes the cell from every sentence that contains it and
  decrements that sentence's count; mark_safe removes it. On an engine whose knowledge
  holds one sentence containing the cell, the sentence is the same after either call.
\<close>

theorem mark_leaves_sentence_untouched:
  "knowledge (snd (mark_mine (0, 1)
         (MinesweeperAI 8 8\<lparr>knowledge := [Sentence {|(0, 1), (1, 0), (1, 1)|} 1]\<rparr>)))
     = [Sentence {|(0, 1), (1, 0), (1, 1)|} 1] \<and>
   knowledge (snd (mark_safe (0, 1)
         (MinesweeperAI 8 8\<lparr>knowledge := [Sentence {|(0, 1), (1, 0), (1, 1)|} 1]\<rparr>)))
     = [Sentence {|(0, 1), (1, 0), (1, 1)|} 1]"
  by (simp add: mark_mine_def mark_safe_def Sentence_mark_mine_def Sentence_mark_safe_def)

text \<open>
  C7, as the claim states it, fails: from the initial state, \<open>mark_safe((0, 0))\<close>
  followed by \<open>mark_mine((0, 0))\<close> returns twice and leaves the cell in both sets.
\<close>

theorem safe_then_mine_counterexample:
  "fst (run [Mark_safe (0, 0), Mark_mine (0, 0)] (MinesweeperAI 8 8)) = Inr () \<and>
   (0, 0) |\<in>| safes (snd (run [Mark_safe (0, 0), Mark_mine (0, 0)] (MinesweeperAI 8 8))) \<and>
   (0, 0) |\<in>| mines (snd (run [Mark_safe (0, 0), Mark_mine (0, 0)] (MinesweeperAI 8 8)))"
  by (simp add: mark_safe_eq mark_mine_eq MinesweeperAI_def)

text \<open>
  C7, amended. From the initial state, every sequence of calls to mark_safe, mark_mine
  and add_knowledge that gives no cell to both mark_safe and mark_mine runs to its end
  without an exception and leaves no cell in both safes and mines.
\<close>

theorem safes_mines_disjoint:
  assumes "\<forall>c. \<not> (Mark_safe c \<in> set cs \<and> Mark_mine c \<in> set cs)"
  shows "fst (run cs (MinesweeperAI h w)) = Inr () \<and>
         safes (snd (run cs (MinesweeperAI h w))) |\<inter>|
           mines (snd (run cs (MinesweeperAI h w))) = {||}"
proof -
  have k: "knowledge (MinesweeperAI h w) = []"
    by (simp add: MinesweeperAI_def)
  note r = run_empty_knowledge[OF k, of cs]
  have "fset (safes (snd (run cs (MinesweeperAI h w)))) \<inter>
        fset (mines (snd (run cs (MinesweeperAI h w)))) = {}"
    using r assms by (auto simp: MinesweeperAI_def)
  then have "safes (snd (run cs (MinesweeperAI h w))) |\<inter>|
             mines (snd (run cs (MinesweeperAI h w))) = {||}"
    by (metis bot_fset.rep_eq fset_inject inf_fset.rep_eq)
  with r show ?thesis by simp
qed

theorem safes_mines_disjoint_witness:
  "(\<forall>c. \<not> (Mark_safe c \<in> set [Mark_safe (0, 0), Add_knowledge (0, 0) 1, Mark_mine (0, 1)] \<and>
           Mark_mine c \<in> set [Mark_safe (0, 0), Add_knowledge (0, 0) 1, Mark_mine (0, 1)])) \<and>
   fst (run [Mark_safe (0, 0), Add_knowledge (0, 0) 1, Mark_mine (0, 1)] (MinesweeperAI 8 8))
     = Inr () \<and>
   safes (snd (run [Mark_safe (0, 0), Add_knowledge (0, 0) 1, Mark_mine (0, 1)]
                 (MinesweeperAI 8 8))) |\<inter>|
     mines (snd (run [Mark_safe (0, 0), Add_knowledge (0, 0) 1, Mark_mine (0, 1)]
                   (MinesweeperAI 8 8))) = {||}"
proof -
  have h: "\<forall>c. \<not> (Mark_safe c \<in> set [Mark_safe (0, 0), Add_knowledge (0, 0) 1, Mark_mine (0, 1)] \<and>
                 Mark_mine c \<in> set [Mark_safe (0, 0), Add_knowledge (0, 0) 1, Mark_mine (0, 1)])"
    by simp
  show ?thesis using h safes_mines_disjoint[OF h, of 8 8] by blast
qed


text \<open>
  C5. For every Sentence, known_mines returns exactly its cell set when the number of
  cells equals the count and the empty set otherwise, and known_safes returns exactly
  its cell set when the count is 0 and the empty set otherwise. (When the count is 0 and
  the cell set is empty, the first branch of known_safes returns the empty set, which is
  the cell set.) Both are functions of the Sentence alone and return a fresh set, so the
  Sentence is as it was.
\<close>

theorem known_mines_known_safes_spec:
  "known_mines s = (if int (fcard (cells s)) = count s then cells s else {||}) \<and>
   known_safes s = (if count s = 0 then cells s else {||})"
  by (auto simp: known_mines_def known_safes_def)

text \<open>
  C10. Calling mark_safe twice in a row with the same cell leaves the engine in the
  same state, with the same outcome, as calling it once; likewise mark_mine. With an
  empty knowledge list both calls return; with a non-empty one both raise after adding
  the cell to the set, and the second call adds nothing new. The same holds for a
  caller that does not catch the exception, whose second call is then never made.
\<close>

theorem mark_twice_same_as_once:
  "mark_safe cell (snd (mark_safe cell self)) = mark_safe cell self \<and>
   mark_mine cell (snd (mark_mine cell self)) = mark_mine cell self \<and>
   run [Mark_safe cell, Mark_safe cell] self = run [Mark_safe cell] self \<and>
   run [Mark_mine cell, Mark_mine cell] self = run [Mark_mine cell] self"
  by (simp add: mark_safe_eq mark_mine_eq)

text \<open>
  C8, as the claim states it, fails: the sentences \<open>{(0,0)} = 1\<close> and
  \<open>{(0,0), (0,1)} = 0\<close> each have their count between 0 and their number of cells,
  the cells of the first are among the cells of the second, and the sentence the
  loop derives from the pair is \<open>{(0,1)} = -1\<close>.
\<close>

theorem inferred_count_counterexample:
  "count_in_range (Sentence {|(0, 0)|} 1) \<and>
   count_in_range (Sentence {|(0, 0), (0, 1)|} 0) \<and>
   cells (Sentence {|(0, 0)|} 1) |\<subseteq>| cells (Sentence {|(0, 0), (0, 1)|} 0) \<and>
   inferred (Sentence {|(0, 0)|} 1) (Sentence {|(0, 0), (0, 1)|} 0) = Sentence {|(0, 1)|} (- 1) \<and>
   infer_new [Sentence {|(0, 0)|} 1, Sentence {|(0, 0), (0, 1)|} 0] = [Sentence {|(0, 1)|} (- 1)] \<and>
   \<not> count_in_range (inferred (Sentence {|(0, 0)|} 1) (Sentence {|(0, 0), (0, 1)|} 0))"
  apply (intro conjI)
  apply (simp_all add: count_in_range_def Sentence_def inferred_def infer_new_def fcard_finsert_if)
  done

text \<open>
  C8, amended. For every pair of sentences A and B with the cells of A among the cells
  of B that both hold of one board (the count of each is the number of its cells that
  are mines of that board), the derived sentence, with the cells of B that are not in A
  and the difference of the counts, holds of that board too, so its count is between 0
  and its number of cells.
\<close>

theorem inferred_sound:
  assumes "holds M A" and "holds M B" and "cells A |\<subseteq>| cells B"
  shows "holds M (inferred A B) \<and> 0 \<le> count (inferred A B) \<and>
         count (inferred A B) \<le> int (fcard (cells (inferred A B)))"
  using holds_count_in_range[OF inferred_holds[OF assms]] inferred_holds[OF assms]
  by (simp add: count_in_range_def)

theorem inferred_sound_witness:
  "holds {(0, 0)} (Sentence {|(0, 0)|} 1) \<and>
   holds {(0, 0)} (Sentence {|(0, 0), (0, 1)|} 1) \<and>
   cells (Sentence {|(0, 0)|} 1) |\<subseteq>| cells (Sentence {|(0, 0), (0, 1)|} 1) \<and>
   inferred (Sentence {|(0, 0)|} 1) (Sentence {|(0, 0), (0, 1)|} 1) = Sentence {|(0, 1)|} 0 \<and>
   holds {(0, 0)} (Sentence {|(0, 1)|} 0) \<and>
   0 \<le> count (Sentence {|(0, 1)|} 0) \<and>
   count (Sentence {|(0, 1)|} 0) \<le> int (fcard (cells (Sentence {|(0, 1)|} 0)))"
proof -
  have a: "holds {(0, 0)} (Sentence {|(0, 0)|} 1)"
    by (simp add: holds_def Sentence_def)
  have b: "holds {(0, 0)} (Sentence {|(0, 0), (0, 1)|} 1)"
    by (simp add: holds_def Sentence_def)
  have c: "cells (Sentence {|(0, 0)|} 1) |\<subseteq>| cells (Sentence {|(0, 0), (0, 1)|} 1)"
    by (simp add: Sentence_def)
  have d: "inferred (Sentence {|(0, 0)|} 1) (Sentence {|(0, 0), (0, 1)|} 1) = Sentence {|(0, 1)|} 0"
    by (auto simp add: inferred_def Sentence_def)
  show ?thesis using a b c d inferred_sound[OF a b c] by simp
qed

text \<open>
  C9. Whatever the order in which the sets are iterated: make_safe_move returns a cell
  of safes minus moves_made, or None when that set is empty; make_random_move, with a
  generator that draws an index below the length it is given, returns a cell of
  possible_moves, or None when that set is empty; possible_moves is the set of the
  cells of the board that are in neither moves_made nor mines; and the candidates
  correspond one to one to the indices that can be drawn, so a uniform draw of the
  index is a uniform draw of the cell.
\<close>

theorem move_selection_spec:
  assumes "enumerates iter" and "\<forall>n. 0 < n \<longrightarrow> randbelow n < n"
  shows "(case make_safe_move iter self of
            None \<Rightarrow> safes self |-| moves_made self = {||}
          | Some c \<Rightarrow> c |\<in>| safes self |-| moves_made self) \<and>
         (case make_random_move iter randbelow self of
            None \<Rightarrow> possible_moves self = {||}
          | Some c \<Rightarrow> c |\<in>| possible_moves self) \<and>
         fset (possible_moves self) =
           {(i, j). 0 \<le> i \<and> i < height self \<and> 0 \<le> j \<and> j < width self}
             - fset (moves_made self) - fset (mines self) \<and>
         bij_betw (\<lambda>k. the (make_random_move iter (\<lambda>n. k) self))
           {..<fcard (possible_moves self)} (fset (possible_moves self))"
  using make_safe_move_spec[OF assms(1)] make_random_move_spec[OF assms]
    possible_moves_fset make_random_move_uniform[OF assms(1)]
  by blast

theorem move_selection_spec_witness:
  "enumerates sorted_list_of_fset \<and>
   make_safe_move sorted_list_of_fset
     (MinesweeperAI 2 2\<lparr>safes := {|(0, 0), (0, 1)|}, moves_made := {|(0, 0)|}, mines := {|(1, 1)|}\<rparr>)
     = Some (0, 1) \<and>
   (0, 1) |\<in>|
     safes (MinesweeperAI 2 2\<lparr>safes := {|(0, 0), (0, 1)|}, moves_made := {|(0, 0)|}, mines := {|(1, 1)|}\<rparr>)
     |-| moves_made (MinesweeperAI 2 2\<lparr>safes := {|(0, 0), (0, 1)|}, moves_made := {|(0, 0)|}, mines := {|(1, 1)|}\<rparr>) \<and>
   make_random_move sorted_list_of_fset (\<lambda>n. n - 1)
     (MinesweeperAI 2 2\<lparr>safes := {|(0, 0), (0, 1)|}, moves_made := {|(0, 0)|}, mines := {|(1, 1)|}\<rparr>)
     = Some (1, 0) \<and>
   (1, 0) |\<in>|
     possible_moves (MinesweeperAI 2 2\<lparr>safes := {|(0, 0), (0, 1)|}, moves_made := {|(0, 0)|}, mines := {|(1, 1)|}\<rparr>)"
proof -
  let ?s = "MinesweeperAI 2 2\<lparr>safes := {|(0, 0), (0, 1)|}, moves_made := {|(0, 0)|}, mines := {|(1, 1)|}\<rparr>"
  have e: "enumerates sorted_list_of_fset" by (rule enumerates_sorted_list)
  have r: "\<forall>n::nat. 0 < n \<longrightarrow> n - 1 < n" by simp
  have a: "make_safe_move sorted_list_of_fset ?s = Some (0, 1)" by code_simp
  have b: "make_random_move sorted_list_of_fset (\<lambda>n. n - 1) ?s = Some (1, 0)" by code_simp
  show ?thesis using e a b move_selection_spec[OF e r, of ?s]
    by (simp add: MinesweeperAI_def)
qed

text \<open>
  C6, as the claim states it, fails. Start the loop on an 8 by 8 engine with empty
  safes, mines and moves_made whose knowledge is \<open>six_cells = 2\<close>, \<open>six_cells = 4\<close>,
  \<open>two_cells = 1\<close>: three different sentences, each with its count between 0 and its
  number of cells, none with count 0 or with count equal to its number of cells. Every
  pass derives a sentence that is not yet in the knowledge, so the loop never ends. The
  sets of cells to mark are empty in every pass, so the order of iteration plays no part.
\<close>

theorem propagation_counterexample:
  "count_in_range (Sentence six_cells 2) \<and> count_in_range (Sentence six_cells 4) \<and>
   count_in_range (Sentence two_cells 1) \<and>
   propagation sorted_list_of_fset
     (MinesweeperAI 8 8
        \<lparr>knowledge := [Sentence six_cells 2, Sentence six_cells 4, Sentence two_cells 1]\<rparr>)
     = None"
proof -
  let ?s = "MinesweeperAI 8 8
        \<lparr>knowledge := [Sentence six_cells 2, Sentence six_cells 4, Sentence two_cells 1]\<rparr>"
  have "unsettled (knowledge ?s)"
    by (simp add: unsettled_def Sentence_def)
  moreover have "sorted_list_of_fset ({||} :: cell fset) = []"
    by (metis sorted_list_of_fset_simps(1) set_empty bot_fset.rep_eq)
  ultimately have "propagation sorted_list_of_fset ?s = None"
    by (intro propagation_never_ends)
  then show ?thesis
    by (simp add: count_in_range_def Sentence_def cells_card)
qed

text \<open>
  C6, amended. The loop terminates from every engine state whose sentences all hold
  of one board (the count of each is the number of its cells that are mines of that
  board), whatever the order in which the sets are iterated.
\<close>

theorem propagation_halts:
  assumes "enumerates iter" and "\<forall>s \<in> set (knowledge self). holds M s"
  shows "\<exists>r. propagation iter self = Some r"
proof -
  let ?U = "\<Union>s \<in> set (knowledge self). fset (cells s)"
  let ?F = "{s. fset (cells s) \<subseteq> ?U \<and> holds M s}"
  have fin: "finite ?F" by (rule finite_holding) simp
  have start: "set (knowledge self) \<subseteq> ?F" using assms(2) by auto
  show ?thesis
    by (rule loop_ends_within[OF assms(1) fin infer_new_holding start])
qed

theorem propagation_halts_witness:
  "enumerates sorted_list_of_fset \<and>
   holds {(0, 0), (0, 2)} (Sentence {|(0, 0), (0, 1), (0, 2), (0, 3)|} 2) \<and>
   holds {(0, 0), (0, 2)} (Sentence {|(0, 0), (0, 1)|} 1) \<and>
   propagation sorted_list_of_fset
     (MinesweeperAI 8 8
        \<lparr>knowledge := [Sentence {|(0, 0), (0, 1), (0, 2), (0, 3)|} 2,
                       Sentence {|(0, 0), (0, 1)|} 1]\<rparr>)
     = Some (Inr (),
         MinesweeperAI 8 8
           \<lparr>knowledge := [Sentence {|(0, 0), (0, 1), (0, 2), (0, 3)|} 2,
                          Sentence {|(0, 0), (0, 1)|} 1,
                          Sentence {|(0, 2), (0, 3)|} 1]\<rparr>)"
proof -
  let ?s = "MinesweeperAI 8 8
        \<lparr>knowledge := [Sentence {|(0, 0), (0, 1), (0, 2), (0, 3)|} 2,
                       Sentence {|(0, 0), (0, 1)|} 1]\<rparr>"
  have e: "enumerates sorted_list_of_fset" by (rule enumerates_sorted_list)
  have a: "holds {(0, 0), (0, 2)} (Sentence {|(0, 0), (0, 1), (0, 2), (0, 3)|} 2)"
    by (simp add: holds_def Sentence_def)
  have b: "holds {(0, 0), (0, 2)} (Sentence {|(0, 0), (0, 1)|} 1)"
    by (simp add: holds_def Sentence_def)
  have h: "\<forall>s \<in> set (knowledge ?s). holds {(0, 0), (0, 2)} s"
    using a b by simp
  have p: "propagation sorted_list_of_fset ?s
     = Some (Inr (),
         MinesweeperAI 8 8
           \<lparr>knowledge := [Sentence {|(0, 0), (0, 1), (0, 2), (0, 3)|} 2,
                          Sentence {|(0, 0), (0, 1)|} 1,
                          Sentence {|(0, 2), (0, 3)|} 1]\<rparr>)"
    by code_simp
  show ?thesis using e a b p propagation_halts[OF e h] by simp
qed

end
